theory Spec2Isabelle
  imports Main
begin

section \<open>The timing wheel of package timewheel\<close>

text \<open>
  A shallow embedding of the scheduler in \<^verbatim>\<open>src/example/example.go\<close> (package
  \<^verbatim>\<open>timewheel\<close>): the wheel, its admission path, the tick scan and the public
  operations.

  Modelling decisions.
  \<^item> A \<^verbatim>\<open>time.Duration\<close> is an \<open>int\<close> of nanoseconds; Go's \<^verbatim>\<open>int\<close> is an unbounded
    \<open>int\<close> (whole seconds of a duration are below \<open>2 ^ 34\<close> and the cursor is below
    the slot count, so the sums and quotients of the source stay far from the 64-bit
    range).
  \<^item> \<^verbatim>\<open>int(d.Seconds())\<close> goes through a \<^verbatim>\<open>float64\<close> in the source; it is modelled as
    the exact quotient of the nanoseconds by \<open>10^9\<close>, truncated towards zero. The two
    agree on every duration below \<open>2 ^ 24\<close> seconds; beyond, the rounding of the
    \<^verbatim>\<open>float64\<close> sum can reach the next whole second.
  \<^item> Tasks are shared by pointer between the slots and the task record, and
    \<^verbatim>\<open>RemoveTask\<close> and \<^verbatim>\<open>UpdateTask\<close> write through the pointer. The model has an explicit
    store: \<open>heap\<close> is the list of all task objects allocated so far, a pointer is an
    index into it, and allocation appends.
  \<^item> A run-time panic (division by zero, index out of range, nil dereference) is a
    value of type \<open>panic\<close>; an \<^verbatim>\<open>error\<close> returned to the caller is a value of type
    \<open>error\<close>.
  \<^item> \<^verbatim>\<open>go task.job(task.taskData)\<close> appends the task's pointer, callback and payload to
    the log \<open>dispatched\<close>; the callback itself is not run.
  \<^item> Every operation is one atomic step; the channels, the lock and the ticker's
    clock are not modelled, and neither is the exhaustion of memory.
  \<^item> The loop of the scan need not end: it is run on fuel, and an outcome tells
    whether a computation completed, panicked or ran out of fuel, with the state it had
    reached.
\<close>

subsection \<open>Go arithmetic\<close>

definition quot :: "int \<Rightarrow> int \<Rightarrow> int" where
  \<comment> \<open>Go's \<^verbatim>\<open>/\<close> on integers, for a divisor that is not 0: truncates towards zero.\<close>
  "quot a b = sgn a * sgn b * (\<bar>a\<bar> div \<bar>b\<bar>)"

definition rem :: "int \<Rightarrow> int \<Rightarrow> int" where
  \<comment> \<open>Go's \<^verbatim>\<open>%\<close>: the sign of the result follows the dividend.\<close>
  "rem a b = a - b * quot a b"

definition Second :: int where
  "Second = 1000000000"

definition Seconds :: "int \<Rightarrow> int" where
  \<comment> \<open>\<^verbatim>\<open>int(d.Seconds())\<close>\<close>
  "Seconds d = quot d Second"

subsection \<open>Data\<close>

type_synonym addr = nat

datatype panic = DivideByZero | IndexOutOfRange | NilDereference

datatype error = IllegalTaskParams | DuplicateTaskKey | TaskNotExists | IllegalKey

text \<open>
  A key is an \<^verbatim>\<open>interface{}\<close>: \<open>None\<close> is \<^verbatim>\<open>nil\<close>, and \<open>Some k\<close> holds a value \<open>k\<close> of a
  comparable type, one that a Go map accepts as a key (the map operations panic on an
  interface that holds a slice, a map or a function; such keys are left out). A
  \<^verbatim>\<open>Job\<close> is a function value: \<open>None\<close> is \<^verbatim>\<open>nil\<close>. The payload type \<open>'d\<close> is opaque.
\<close>

record ('k, 'j, 'd) task =
  task_interval :: int
  task_times :: int
  task_circle :: int
  task_key :: "'k option"
  task_job :: "'j option"
  task_taskData :: 'd

text \<open>
  The fields of \<^verbatim>\<open>TimeWheel\<close>. \<open>ticker\<close> tells whether the ticker pointer is set; a slot
  is \<open>None\<close> while its \<^verbatim>\<open>*list.List\<close> is \<^verbatim>\<open>nil\<close> and otherwise the pointers in the list,
  front first. \<open>heap\<close> and \<open>dispatched\<close> are the store and the log described above.
\<close>

record ('k, 'j, 'd) TimeWheel =
  interval :: int
  ticker :: bool
  slots :: "addr list option list"
  currentPos :: int
  slotNum :: int
  taskRecord :: "'k option \<rightharpoonup> addr"
  heap :: "('k, 'j, 'd) task list"
  dispatched :: "(addr \<times> 'j option \<times> 'd) list"

datatype 's outcome = Done 's | Panicked panic 's | OutOfFuel 's

fun state_of :: "'s outcome \<Rightarrow> 's" where
  "state_of (Done s) = s"
| "state_of (Panicked p s) = s"
| "state_of (OutOfFuel s) = s"

fun panic_of :: "'s outcome \<Rightarrow> panic option" where
  "panic_of (Panicked p s) = Some p"
| "panic_of (Done s) = None"
| "panic_of (OutOfFuel s) = None"

subsection \<open>Construction\<close>

function init_loop :: "int \<Rightarrow> ('k, 'j, 'd) TimeWheel \<Rightarrow> panic + ('k, 'j, 'd) TimeWheel" where
  "init_loop i tw =
     (if i < slotNum tw then
        (if i < 0 \<or> int (length (slots tw)) \<le> i then Inl IndexOutOfRange
         else init_loop (i + 1) (tw\<lparr>slots := (slots tw)[nat i := Some []]\<rparr>))
      else Inr tw)"
  by pat_completeness auto
termination
  by (relation "measure (\<lambda>(i, tw). nat (slotNum tw - i))") auto

declare init_loop.simps [simp del]

definition init :: "('k, 'j, 'd) TimeWheel \<Rightarrow> panic + ('k, 'j, 'd) TimeWheel" where
  "init tw = init_loop 0 tw"

definition New :: "int \<Rightarrow> int \<Rightarrow> panic + ('k, 'j, 'd) TimeWheel option" where
  "New interval' slotNum' =
     (if interval' \<le> 0 \<or> slotNum' \<le> 0 then Inr None
      else
        (case init \<lparr>interval = interval', ticker = False,
                    slots = replicate (nat slotNum') None, currentPos = 0,
                    slotNum = slotNum', taskRecord = Map.empty, heap = [],
                    dispatched = []\<rparr> of
           Inl p \<Rightarrow> Inl p
         | Inr tw \<Rightarrow> Inr (Some tw)))"

definition Start :: "('k, 'j, 'd) TimeWheel \<Rightarrow> ('k, 'j, 'd) TimeWheel" where
  "Start tw = tw\<lparr>ticker := True\<rparr>"

subsection \<open>Admission\<close>

definition getPositionAndCircle :: "('k, 'j, 'd) TimeWheel \<Rightarrow> int \<Rightarrow> panic + (int \<times> int)" where
  "getPositionAndCircle tw d =
     (let delaySeconds = Seconds d;
          intervalSeconds = Seconds (interval tw)
      in if intervalSeconds = 0 \<or> slotNum tw = 0 then Inl DivideByZero
         else Inr (rem (currentPos tw + quot delaySeconds intervalSeconds) (slotNum tw),
                   quot (quot delaySeconds intervalSeconds) (slotNum tw)))"

definition addTask :: "('k, 'j, 'd) TimeWheel \<Rightarrow> addr \<Rightarrow> panic + ('k, 'j, 'd) TimeWheel" where
  "addTask tw a =
     (let t = heap tw ! a in
      if task_times t = 0 then Inr tw
      else
        (case getPositionAndCircle tw (task_interval t) of
           Inl p \<Rightarrow> Inl p
         | Inr (pos, circle) \<Rightarrow>
             let tw1 = tw\<lparr>heap := (heap tw)[a := t\<lparr>task_circle := circle\<rparr>]\<rparr> in
             if pos < 0 \<or> int (length (slots tw1)) \<le> pos then Inl IndexOutOfRange
             else
               (case slots tw1 ! nat pos of
                  None \<Rightarrow> Inl NilDereference
                | Some l \<Rightarrow>
                    Inr (tw1\<lparr>slots := (slots tw1)[nat pos := Some (l @ [a])],
                              taskRecord := (taskRecord tw1)(task_key t \<mapsto> a)\<rparr>))))"

definition AddTask ::
  "('k, 'j, 'd) TimeWheel \<Rightarrow> int \<Rightarrow> int \<Rightarrow> 'k option \<Rightarrow> 'd \<Rightarrow> 'j option
     \<Rightarrow> error option \<times> addr option \<times> ('k, 'j, 'd) TimeWheel" where
  \<comment> \<open>The result is the returned error, the pointer sent on \<^verbatim>\<open>addTaskChannel\<close> and the
      state, in which the new task object is allocated.\<close>
  "AddTask tw interval' times' key' data job' =
     (if interval' \<le> 0 \<or> key' = None \<or> job' = None \<or> times' < - 1 \<or> times' = 0
      then (Some IllegalTaskParams, None, tw)
      else if taskRecord tw key' \<noteq> None then (Some DuplicateTaskKey, None, tw)
      else (None, Some (length (heap tw)),
            tw\<lparr>heap := heap tw @ [\<lparr>task_interval = interval', task_times = times',
                                     task_circle = 0, task_key = key', task_job = job',
                                     task_taskData = data\<rparr>]\<rparr>))"

subsection \<open>Cancellation and update\<close>

definition RemoveTask ::
  "('k, 'j, 'd) TimeWheel \<Rightarrow> 'k option \<Rightarrow> error option \<times> ('k, 'j, 'd) TimeWheel" where
  "RemoveTask tw key' =
     (if key' = None then (None, tw)
      else
        (case taskRecord tw key' of
           None \<Rightarrow> (Some TaskNotExists, tw)
         | Some a \<Rightarrow>
             let t = heap tw ! a;
                 tw1 = tw\<lparr>heap := (heap tw)[a := t\<lparr>task_times := 0\<rparr>]\<rparr>
             in (None, tw1\<lparr>taskRecord := (taskRecord tw1)(task_key t := None)\<rparr>)))"

definition UpdateTask ::
  "('k, 'j, 'd) TimeWheel \<Rightarrow> 'k option \<Rightarrow> int \<Rightarrow> 'd \<Rightarrow> error option \<times> ('k, 'j, 'd) TimeWheel" where
  "UpdateTask tw key' interval' taskData' =
     (if key' = None then (Some IllegalKey, tw)
      else
        (case taskRecord tw key' of
           None \<Rightarrow> (Some TaskNotExists, tw)
         | Some a \<Rightarrow>
             let t = heap tw ! a
             in (None, tw\<lparr>heap := (heap tw)[a := t\<lparr>task_taskData := taskData',
                                                      task_interval := interval'\<rparr>]\<rparr>)))"

subsection \<open>The tick\<close>

text \<open>
  The scan walks a \<^verbatim>\<open>container/list\<close> while it removes elements from it and while
  \<open>addTask\<close> may push onto it. The list is \<open>slots tw ! p\<close>, read afresh at every
  iteration; the loop variable \<^verbatim>\<open>item\<close> is the position of the element in that list,
  or \<open>None\<close> for \<^verbatim>\<open>nil\<close>. \<^verbatim>\<open>item.Next()\<close> is taken before \<open>addTask\<close> runs: when the
  removed element was the last one the loop ends there, and otherwise the scan goes on
  and reaches whatever \<open>addTask\<close> has pushed onto the same list. The loop therefore
  need not end, and it is run on fuel: one unit per iteration.
\<close>

fun items :: "addr list option \<Rightarrow> addr list" where
  "items None = []"
| "items (Some l) = l"

definition elemAt :: "addr list \<Rightarrow> nat \<Rightarrow> nat option" where
  \<comment> \<open>the element at position \<open>i\<close>, or \<^verbatim>\<open>nil\<close> past the end\<close>
  "elemAt l i = (if i < length l then Some i else None)"

definition removeAt :: "nat \<Rightarrow> addr list \<Rightarrow> addr list" where
  "removeAt i l = take i l @ drop (Suc i) l"

definition scanStep ::
  "('k, 'j, 'd) TimeWheel \<Rightarrow> nat \<Rightarrow> nat
     \<Rightarrow> panic \<times> ('k, 'j, 'd) TimeWheel + ('k, 'j, 'd) TimeWheel \<times> nat option" where
  \<comment> \<open>One iteration of the loop of \<^verbatim>\<open>scanAddRunTask\<close>, with \<^verbatim>\<open>item\<close> at position \<open>i\<close> of
      slot \<open>p\<close>: the new state and the new \<^verbatim>\<open>item\<close>, or a panic of \<open>addTask\<close> and the
      state in which it was called.\<close>
  "scanStep tw p i =
     (let l = items (slots tw ! p);
          a = l ! i;
          t = heap tw ! a
      in if task_times t = 0 then
           let l' = removeAt i l
           in Inr (tw\<lparr>slots := (slots tw)[p := Some l'],
                       taskRecord := (taskRecord tw)(task_key t := None)\<rparr>,
                   elemAt l' i)
         else if task_circle t > 0 then
           Inr (tw\<lparr>heap := (heap tw)[a := t\<lparr>task_circle := task_circle t - 1\<rparr>]\<rparr>,
                elemAt l (Suc i))
         else
           let l' = removeAt i l;
               next = elemAt l' i;
               tw1 = tw\<lparr>dispatched := dispatched tw @ [(a, task_job t, task_taskData t)],
                        slots := (slots tw)[p := Some l']\<rparr>
           in if task_times t = 1 then
                Inr (tw1\<lparr>heap := (heap tw1)[a := t\<lparr>task_times := 0\<rparr>],
                          taskRecord := (taskRecord tw1)(task_key t := None)\<rparr>,
                     next)
              else
                let tw2 = (if task_times t > 0
                           then tw1\<lparr>heap := (heap tw1)[a := t\<lparr>task_times := task_times t - 1\<rparr>]\<rparr>
                           else tw1)
                in (case addTask tw2 a of
                      Inl e \<Rightarrow> Inl (e, tw2)
                    | Inr tw3 \<Rightarrow> Inr (tw3, next)))"

fun scanLoop ::
  "nat \<Rightarrow> ('k, 'j, 'd) TimeWheel \<Rightarrow> nat \<Rightarrow> nat option \<Rightarrow> ('k, 'j, 'd) TimeWheel outcome" where
  "scanLoop fuel tw p None = Done tw"
| "scanLoop 0 tw p (Some i) = OutOfFuel tw"
| "scanLoop (Suc fuel) tw p (Some i) =
     (case scanStep tw p i of
        Inl (e, tw') \<Rightarrow> Panicked e tw'
      | Inr (tw', item) \<Rightarrow> scanLoop fuel tw' p item)"

definition scanAddRunTask ::
  "nat \<Rightarrow> ('k, 'j, 'd) TimeWheel \<Rightarrow> nat \<Rightarrow> ('k, 'j, 'd) TimeWheel outcome" where
  \<comment> \<open>the argument \<^verbatim>\<open>l\<close> of the source is the list of slot \<open>p\<close>\<close>
  "scanAddRunTask fuel tw p =
     (case slots tw ! p of
        None \<Rightarrow> Done tw
      | Some l \<Rightarrow> scanLoop fuel tw p (elemAt l 0))"

definition tickHandler ::
  "nat \<Rightarrow> ('k, 'j, 'd) TimeWheel \<Rightarrow> ('k, 'j, 'd) TimeWheel outcome" where
  "tickHandler fuel tw =
     (if currentPos tw < 0 \<or> int (length (slots tw)) \<le> currentPos tw
      then Panicked IndexOutOfRange tw
      else
        (case scanAddRunTask fuel tw (nat (currentPos tw)) of
           Done tw' \<Rightarrow>
             Done (if currentPos tw' = slotNum tw' - 1 then tw'\<lparr>currentPos := 0\<rparr>
                   else tw'\<lparr>currentPos := currentPos tw' + 1\<rparr>)
         | out \<Rightarrow> out))"

subsection \<open>Runs of the wheel\<close>

text \<open>
  The events of a started wheel: the three operations of its callers and the tick of
  its ticker. An accepted \<open>AddTask\<close> is received by the control loop (\<^verbatim>\<open>start\<close>) and
  handed to \<open>addTask\<close> in the same step; on a wheel whose control loop does not run
  the send blocks, and \<open>AddTask\<close> has returned no error means that it returns none once
  the task is received. A tick carries the fuel of its scan. A run ends at the first
  event that does not complete.
\<close>

datatype ('k, 'j, 'd) event =
    EvAddTask int int "'k option" 'd "'j option"
  | EvRemoveTask "'k option"
  | EvUpdateTask "'k option" int 'd
  | EvTick nat

fun exec :: "('k, 'j, 'd) event \<Rightarrow> ('k, 'j, 'd) TimeWheel \<Rightarrow> ('k, 'j, 'd) TimeWheel outcome" where
  "exec (EvAddTask i n k d j) tw =
     (case AddTask tw i n k d j of
        (_, None, tw') \<Rightarrow> Done tw'
      | (_, Some a, tw') \<Rightarrow>
          (case addTask tw' a of Inl p \<Rightarrow> Panicked p tw' | Inr tw'' \<Rightarrow> Done tw''))"
| "exec (EvRemoveTask k) tw = Done (snd (RemoveTask tw k))"
| "exec (EvUpdateTask k i d) tw = Done (snd (UpdateTask tw k i d))"
| "exec (EvTick fuel) tw = tickHandler fuel tw"

fun run :: "('k, 'j, 'd) event list \<Rightarrow> ('k, 'j, 'd) TimeWheel \<Rightarrow> ('k, 'j, 'd) TimeWheel outcome" where
  "run [] tw = Done tw"
| "run (e # es) tw = (case exec e tw of Done tw' \<Rightarrow> run es tw' | out \<Rightarrow> out)"

subsection \<open>The invariant of a wheel\<close>

text \<open>
  What holds of every wheel reached from \<open>New\<close>: the slot array has \<open>slotNum\<close> lists,
  none of them \<^verbatim>\<open>nil\<close>; the cursor is inside it; every pointer in a slot or in the task
  record points to an allocated task; a task recorded under a key has that key; and no
  allocated task has a \<^verbatim>\<open>nil\<close> key.
\<close>

definition wheel_inv :: "('k, 'j, 'd) TimeWheel \<Rightarrow> bool" where
  "wheel_inv tw \<longleftrightarrow>
     0 < slotNum tw \<and> length (slots tw) = nat (slotNum tw) \<and>
     0 \<le> currentPos tw \<and> currentPos tw < slotNum tw \<and>
     (\<forall>s \<in> set (slots tw). s \<noteq> None \<and> (\<forall>a \<in> set (items s). a < length (heap tw))) \<and>
     (\<forall>k a. taskRecord tw k = Some a \<longrightarrow> a < length (heap tw) \<and> task_key (heap tw ! a) = k) \<and>
     (\<forall>t \<in> set (heap tw). task_key t \<noteq> None)"

definition cursor_ok :: "('k, 'j, 'd) TimeWheel \<Rightarrow> nat \<Rightarrow> nat option \<Rightarrow> bool" where
  \<comment> \<open>the loop variable \<^verbatim>\<open>item\<close> is \<^verbatim>\<open>nil\<close> or an element of the list of slot \<open>p\<close>\<close>
  "cursor_ok tw p item =
     (case item of None \<Rightarrow> True | Some i \<Rightarrow> i < length (items (slots tw ! p)))"



definition frame_eq :: "('k, 'j, 'd) TimeWheel \<Rightarrow> ('k, 'j, 'd) TimeWheel \<Rightarrow> bool" where
  \<comment> \<open>the fields that only \<open>New\<close>, \<open>Start\<close> and the end of a tick write\<close>
  "frame_eq tw tw' \<longleftrightarrow>
     currentPos tw' = currentPos tw \<and> slotNum tw' = slotNum tw \<and>
     interval tw' = interval tw \<and> ticker tw' = ticker tw"


subsection \<open>Example wheels\<close>

text \<open>
  A wheel of ten slots ticking every second, as \<open>New\<close> returns it, and the same wheel
  two ticks after three tasks were admitted to slot 2 and the first of them was
  cancelled: \<^verbatim>\<open>"x"\<close> (tombstoned), \<^verbatim>\<open>"b"\<close> (twelve seconds, so one more rotation to wait) and
  \<^verbatim>\<open>"c"\<close> (two seconds, five runs, due now).
\<close>

definition fresh_wheel :: "(string, string, string) TimeWheel" where
  "fresh_wheel =
     \<lparr>interval = 1000000000, ticker = False,
      slots = [Some [], Some [], Some [], Some [], Some [], Some [], Some [], Some [],
               Some [], Some []],
      currentPos = 0, slotNum = 10, taskRecord = Map.empty, heap = [], dispatched = []\<rparr>"

definition busy_wheel :: "(string, string, string) TimeWheel" where
  "busy_wheel =
     \<lparr>interval = 1000000000, ticker = True,
      slots = [Some [], Some [], Some [0, 1, 2], Some [], Some [], Some [], Some [], Some [],
               Some [], Some []],
      currentPos = 2, slotNum = 10,
      taskRecord = [Some ''b'' \<mapsto> 1, Some ''c'' \<mapsto> 2],
      heap = [\<lparr>task_interval = 2000000000, task_times = 0, task_circle = 0,
                task_key = Some ''x'', task_job = Some ''print'', task_taskData = ''one''\<rparr>,
              \<lparr>task_interval = 12000000000, task_times = 3, task_circle = 1,
                task_key = Some ''b'', task_job = Some ''print'', task_taskData = ''two''\<rparr>,
              \<lparr>task_interval = 2000000000, task_times = 5, task_circle = 0,
                task_key = Some ''c'', task_job = Some ''print'', task_taskData = ''three''\<rparr>],
      dispatched = []\<rparr>"



text \<open>The pointers in all the slots, slot after slot.\<close>

definition all_items :: "('k, 'j, 'd) TimeWheel \<Rightarrow> addr list" where
  "all_items tw = concat (map items (slots tw))"


text \<open>
  A wheel ticking every two seconds with two unlimited tasks of one second, both in
  the slot at the cursor, and the states the scan of that slot goes through.
\<close>

definition spin_wheel :: "(string, string, string) TimeWheel" where
  "spin_wheel =
     \<lparr>interval = 2000000000, ticker = True,
      slots = [Some [0, 1], Some [], Some [], Some [], Some [], Some [], Some [], Some [],
               Some [], Some []],
      currentPos = 0, slotNum = 10,
      taskRecord = [Some ''p'' \<mapsto> 0, Some ''q'' \<mapsto> 1],
      heap = [\<lparr>task_interval = 1000000000, task_times = - 1, task_circle = 0,
                task_key = Some ''p'', task_job = Some ''print'', task_taskData = ''one''\<rparr>,
              \<lparr>task_interval = 1000000000, task_times = - 1, task_circle = 0,
                task_key = Some ''q'', task_job = Some ''print'', task_taskData = ''two''\<rparr>],
      dispatched = []\<rparr>"

definition spinning :: "(string, string, string) TimeWheel \<Rightarrow> bool" where
  "spinning tw \<longleftrightarrow>
     interval tw = 2000000000 \<and> currentPos tw = 0 \<and> slotNum tw = 10 \<and> length (slots tw) = 10 \<and>
     (slots tw ! 0 = Some [0, 1] \<or> slots tw ! 0 = Some [1, 0]) \<and> heap tw = heap spin_wheel"


subsection \<open>Arithmetic and construction\<close>





lemma init_loop_eq:
  "0 \<le> i \<Longrightarrow> length (slots tw) = nat (slotNum tw) \<Longrightarrow>
   init_loop i tw = Inr (tw\<lparr>slots := take (nat i) (slots tw) @ replicate (nat (slotNum tw) - nat i) (Some [])\<rparr>)"
proof (induction i tw rule: init_loop.induct)
  case (1 i tw)
  show ?case
  proof (cases "i < slotNum tw")
    case True
    let ?tw = "tw\<lparr>slots := (slots tw)[nat i := Some []]\<rparr>"
    have ir: "nat i < length (slots tw)" using True 1(2,3) by simp
    have "init_loop i tw = init_loop (i + 1) ?tw"
      using True 1(2,3) by (subst init_loop.simps) simp
    also have "\<dots> = Inr (?tw\<lparr>slots := take (nat (i + 1)) (slots ?tw) @ replicate (nat (slotNum ?tw) - nat (i + 1)) (Some [])\<rparr>)"
      using True 1(2,3) by (intro 1(1)) simp_all
    also have "take (nat (i + 1)) (slots ?tw) = take (nat i) (slots tw) @ [Some []]"
      using ir 1(2) by (simp add: nat_add_distrib take_Suc_conv_app_nth)
    also have "(take (nat i) (slots tw) @ [Some []]) @ replicate (nat (slotNum ?tw) - nat (i + 1)) (Some [])
      = take (nat i) (slots tw) @ replicate (nat (slotNum tw) - nat i) (Some [])"
    proof -
      have "nat (slotNum tw) - nat i = Suc (nat (slotNum tw) - nat (i + 1))"
        using True 1(2) by (simp add: nat_add_distrib)
      then show ?thesis by simp
    qed
    finally show ?thesis by simp
  next
    case False
    then have "nat (slotNum tw) \<le> nat i" by simp
    then show ?thesis using False 1(3) by (subst init_loop.simps) simp
  qed
qed

lemma New_fail: "interval' \<le> 0 \<or> slotNum' \<le> 0 \<Longrightarrow> New interval' slotNum' = Inr None"
  by (simp add: New_def)

lemma New_ok:
  "0 < interval' \<Longrightarrow> 0 < slotNum' \<Longrightarrow>
   New interval' slotNum' =
     Inr (Some \<lparr>interval = interval', ticker = False,
               slots = replicate (nat slotNum') (Some []), currentPos = 0,
               slotNum = slotNum', taskRecord = Map.empty, heap = [], dispatched = []\<rparr>)"
  by (simp add: New_def init_def init_loop_eq)

subsection \<open>The invariant is kept by admission\<close>

lemma addTask_cases:
  assumes "addTask tw a = Inr tw'"
  obtains (skip) "task_times (heap tw ! a) = 0" "tw' = tw"
  | (push) pos circle l where "task_times (heap tw ! a) \<noteq> 0"
      "getPositionAndCircle tw (task_interval (heap tw ! a)) = Inr (pos, circle)"
      "0 \<le> pos" "pos < int (length (slots tw))" "slots tw ! nat pos = Some l"
      "tw' = tw\<lparr>heap := (heap tw)[a := (heap tw ! a)\<lparr>task_circle := circle\<rparr>],
                slots := (slots tw)[nat pos := Some (l @ [a])],
                taskRecord := (taskRecord tw)(task_key (heap tw ! a) \<mapsto> a)\<rparr>"
  using assms
  by (auto simp: addTask_def Let_def split: if_splits sum.splits prod.splits option.splits)

lemma inv_New: "New i n = Inr (Some tw) \<Longrightarrow> wheel_inv tw"
  by (cases "0 < i \<and> 0 < n") (auto simp: New_ok New_fail wheel_inv_def not_less)

lemma inv_heap_update:
  assumes "wheel_inv tw" "task_key t = task_key (heap tw ! a)"
  shows "wheel_inv (tw\<lparr>heap := (heap tw)[a := t]\<rparr>)"
proof -
  have k: "task_key ((heap tw)[a := t] ! b) = task_key (heap tw ! b)" for b
    using assms(2) by (cases "a < length (heap tw)") (auto simp: nth_list_update list_update_beyond)
  have "task_key u \<noteq> None" if "u \<in> set ((heap tw)[a := t])" for u
  proof -
    from that obtain b where "b < length (heap tw)" "u = (heap tw)[a := t] ! b"
      by (auto simp: in_set_conv_nth)
    then show ?thesis using k[of b] assms(1) by (auto simp: wheel_inv_def)
  qed
  then show ?thesis using assms(1) k by (simp add: wheel_inv_def)
qed

lemma inv_push:
  assumes "wheel_inv tw" "a < length (heap tw)" "slots tw ! p = Some l" "p < length (slots tw)"
  shows "wheel_inv (tw\<lparr>slots := (slots tw)[p := Some (l @ [a])]\<rparr>)"
proof -
  have "Some l \<in> set (slots tw)" using assms(3,4) by (metis nth_mem)
  then have l: "\<forall>b\<in>set l. b < length (heap tw)" using assms(1) by (force simp: wheel_inv_def)
  have "s \<noteq> None \<and> (\<forall>b\<in>set (items s). b < length (heap tw))"
    if "s \<in> set ((slots tw)[p := Some (l @ [a])])" for s
  proof -
    from that have "s = Some (l @ [a]) \<or> s \<in> set (slots tw)"
      using set_update_subset_insert[of "slots tw" p "Some (l @ [a])"] by auto
    then show ?thesis using l assms(1,2) by (auto simp: wheel_inv_def)
  qed
  then show ?thesis using assms(1) by (simp add: wheel_inv_def)
qed

lemma inv_record_put:
  assumes "wheel_inv tw" "a < length (heap tw)" "task_key (heap tw ! a) = k"
  shows "wheel_inv (tw\<lparr>taskRecord := (taskRecord tw)(k \<mapsto> a)\<rparr>)"
  using assms by (simp add: wheel_inv_def)

lemma inv_record_delete:
  assumes "wheel_inv tw"
  shows "wheel_inv (tw\<lparr>taskRecord := (taskRecord tw)(k := None)\<rparr>)"
  using assms by (simp add: wheel_inv_def)

lemma addTask_inv:
  assumes "wheel_inv tw" "a < length (heap tw)" "addTask tw a = Inr tw'"
  shows "wheel_inv tw'"
  using assms(3)
proof (cases rule: addTask_cases)
  case skip
  then show ?thesis using assms(1) by simp
next
  case (push pos circle l)
  let ?t = "(heap tw ! a)\<lparr>task_circle := circle\<rparr>"
  let ?tw1 = "tw\<lparr>heap := (heap tw)[a := ?t]\<rparr>"
  have 1: "wheel_inv ?tw1" using assms(1) by (intro inv_heap_update) simp_all
  let ?tw2 = "?tw1\<lparr>slots := (slots ?tw1)[nat pos := Some (l @ [a])]\<rparr>"
  have 2: "wheel_inv ?tw2" using 1 assms(2) push(3,4,5) by (intro inv_push) simp_all
  have "wheel_inv (?tw2\<lparr>taskRecord := (taskRecord ?tw2)(task_key (heap tw ! a) \<mapsto> a)\<rparr>)"
    using 2 assms(2) by (intro inv_record_put) simp_all
  then show ?thesis using push(6) by simp
qed

subsection \<open>The invariant is kept by the public operations\<close>

lemma set_removeAt: "set (removeAt i l) \<subseteq> set l"
  unfolding removeAt_def using set_take_subset[of i l] set_drop_subset[of "Suc i" l] by auto


lemma inv_slot:
  assumes "wheel_inv tw" "p < length (slots tw)"
  obtains l where "slots tw ! p = Some l" "\<forall>a\<in>set l. a < length (heap tw)"
proof -
  have m: "slots tw ! p \<in> set (slots tw)" using assms(2) by simp
  then obtain l where l: "slots tw ! p = Some l" using assms(1) by (auto simp: wheel_inv_def)
  with m have "\<forall>a\<in>set (items (Some l)). a < length (heap tw)"
    using assms(1) unfolding wheel_inv_def by metis
  with l that show ?thesis by simp
qed

lemma inv_shrink:
  assumes "wheel_inv tw" "p < length (slots tw)" "set l' \<subseteq> set (items (slots tw ! p))"
  shows "wheel_inv (tw\<lparr>slots := (slots tw)[p := Some l']\<rparr>)"
proof -
  from assms(1,2) obtain l where l: "slots tw ! p = Some l" "\<forall>a\<in>set l. a < length (heap tw)"
    by (rule inv_slot)
  have "s \<noteq> None \<and> (\<forall>b\<in>set (items s). b < length (heap tw))"
    if "s \<in> set ((slots tw)[p := Some l'])" for s
  proof -
    from that have "s = Some l' \<or> s \<in> set (slots tw)"
      using set_update_subset_insert[of "slots tw" p "Some l'"] by auto
    then show ?thesis using l assms(1,3) by (auto simp: wheel_inv_def)
  qed
  then show ?thesis using assms(1) by (simp add: wheel_inv_def)
qed

lemma AddTask_inv:
  assumes "wheel_inv tw" "AddTask tw i n k d j = (e, s, tw')"
  shows "wheel_inv tw' \<and> (\<forall>a. s = Some a \<longrightarrow> a < length (heap tw'))"
proof (cases "e = None")
  case False
  then have "tw' = tw \<and> s = None" using assms(2) by (auto simp: AddTask_def split: if_splits)
  then show ?thesis using assms(1) by simp
next
  case True
  then have k: "k \<noteq> None" and s: "s = Some (length (heap tw))"
    and tw': "tw' = tw\<lparr>heap := heap tw @ [\<lparr>task_interval = i, task_times = n,
                 task_circle = 0, task_key = k, task_job = j, task_taskData = d\<rparr>]\<rparr>"
    using assms(2) by (auto simp: AddTask_def split: if_splits)
  have "wheel_inv tw'"
    using assms(1) k unfolding tw' wheel_inv_def
    by (auto simp: nth_append intro: less_SucI)
  then show ?thesis using s tw' by simp
qed

lemma RemoveTask_inv:
  assumes "wheel_inv tw"
  shows "wheel_inv (snd (RemoveTask tw k))"
proof (cases "k = None \<or> taskRecord tw k = None")
  case True
  then show ?thesis using assms by (auto simp: RemoveTask_def)
next
  case False
  then obtain a where a: "taskRecord tw k = Some a" by auto
  let ?tw1 = "tw\<lparr>heap := (heap tw)[a := (heap tw ! a)\<lparr>task_times := 0\<rparr>]\<rparr>"
  have "wheel_inv ?tw1" using assms by (intro inv_heap_update) simp_all
  from inv_record_delete[OF this, of "task_key (heap tw ! a)"]
  show ?thesis using False a by (auto simp: RemoveTask_def Let_def)
qed

lemma UpdateTask_inv:
  assumes "wheel_inv tw"
  shows "wheel_inv (snd (UpdateTask tw k i d))"
proof (cases "k = None \<or> taskRecord tw k = None")
  case True
  then show ?thesis using assms by (auto simp: UpdateTask_def)
next
  case False
  then obtain a where a: "taskRecord tw k = Some a" by auto
  have "wheel_inv (tw\<lparr>heap := (heap tw)[a := (heap tw ! a)\<lparr>task_taskData := d, task_interval := i\<rparr>]\<rparr>)"
    using assms by (intro inv_heap_update) simp_all
  then show ?thesis using False a by (auto simp: UpdateTask_def Let_def)
qed

lemma addTask_slots:
  assumes "addTask tw a = Inr tw'"
  shows "length (slots tw') = length (slots tw) \<and> length (heap tw') = length (heap tw) \<and>
         length (items (slots tw ! p)) \<le> length (items (slots tw' ! p))"
  using assms
proof (cases rule: addTask_cases)
  case skip
  then show ?thesis by simp
next
  case (push pos circle l)
  then show ?thesis by (cases "p = nat pos") simp_all
qed

subsection \<open>The branches of the scan\<close>

lemma scanStep_dead:
  assumes "l = items (slots tw ! p)" "a = l ! i" "t = heap tw ! a" "task_times t = 0"
  shows "scanStep tw p i =
           Inr (tw\<lparr>slots := (slots tw)[p := Some (removeAt i l)],
                     taskRecord := (taskRecord tw)(task_key t := None)\<rparr>,
                elemAt (removeAt i l) i)"
  using assms by (simp add: scanStep_def Let_def)

lemma scanStep_wait:
  assumes "l = items (slots tw ! p)" "a = l ! i" "t = heap tw ! a"
    "task_times t \<noteq> 0" "0 < task_circle t"
  shows "scanStep tw p i =
           Inr (tw\<lparr>heap := (heap tw)[a := t\<lparr>task_circle := task_circle t - 1\<rparr>]\<rparr>,
                elemAt l (Suc i))"
  using assms by (simp add: scanStep_def Let_def)

lemma scanStep_last:
  assumes "l = items (slots tw ! p)" "a = l ! i" "t = heap tw ! a"
    "task_times t = 1" "\<not> 0 < task_circle t"
  shows "scanStep tw p i =
           Inr (tw\<lparr>dispatched := dispatched tw @ [(a, task_job t, task_taskData t)],
                     slots := (slots tw)[p := Some (removeAt i l)],
                     heap := (heap tw)[a := t\<lparr>task_times := 0\<rparr>],
                     taskRecord := (taskRecord tw)(task_key t := None)\<rparr>,
                elemAt (removeAt i l) i)"
  using assms by (simp add: scanStep_def Let_def)

lemma scanStep_again:
  assumes "l = items (slots tw ! p)" "a = l ! i" "t = heap tw ! a"
    "task_times t \<noteq> 0" "task_times t \<noteq> 1" "\<not> 0 < task_circle t"
    "tw2 = tw\<lparr>dispatched := dispatched tw @ [(a, task_job t, task_taskData t)],
               slots := (slots tw)[p := Some (removeAt i l)],
               heap := (heap tw)[a := t\<lparr>task_times :=
                          (if 0 < task_times t then task_times t - 1 else task_times t)\<rparr>]\<rparr>"
  shows "scanStep tw p i =
           (case addTask tw2 a of
              Inl e \<Rightarrow> Inl (e, tw2)
            | Inr tw3 \<Rightarrow> Inr (tw3, elemAt (removeAt i l) i))"
proof (cases "0 < task_times t")
  case True
  then show ?thesis using assms by (simp add: scanStep_def Let_def cong: sum.case_cong)
next
  case False
  have "(heap tw)[a := t\<lparr>task_times := task_times t\<rparr>] = heap tw"
    using assms(3) by simp
  then have "tw2 = tw\<lparr>dispatched := dispatched tw @ [(a, task_job t, task_taskData t)],
               slots := (slots tw)[p := Some (removeAt i l)]\<rparr>"
    using False assms(7) by simp
  then show ?thesis using False assms(1-6) by (simp add: scanStep_def Let_def cong: sum.case_cong)
qed

subsection \<open>The invariant is kept by the scan\<close>

lemma scanStep_inv:
  assumes inv: "wheel_inv tw" and p: "p < length (slots tw)"
    and i: "i < length (items (slots tw ! p))"
  shows "case scanStep tw p i of
           Inl (e, tw') \<Rightarrow> wheel_inv tw' \<and> length (slots tw') = length (slots tw)
         | Inr (tw', item) \<Rightarrow> wheel_inv tw' \<and> length (slots tw') = length (slots tw) \<and>
             cursor_ok tw' p item"
proof -
  define l where "l = items (slots tw ! p)"
  define a where "a = l ! i"
  define t where "t = heap tw ! a"
  from inv p obtain l0 where l0: "slots tw ! p = Some l0" "\<forall>b\<in>set l0. b < length (heap tw)"
    by (rule inv_slot)
  have ll: "l = l0" by (simp add: l_def l0)
  have a: "a < length (heap tw)" using l0 i by (simp add: a_def ll)
  have il: "i < length l" using i by (simp add: l_def)
  let ?l' = "removeAt i l"
  have sub: "set ?l' \<subseteq> set (items (slots tw ! p))"
    using set_removeAt[of i l] by (simp add: l_def)
  let ?twr = "tw\<lparr>slots := (slots tw)[p := Some ?l']\<rparr>"
  have r: "wheel_inv ?twr" using inv p sub by (rule inv_shrink)
  have cr: "cursor_ok tw' p (elemAt ?l' i)" if "slots tw' = (slots tw)[p := Some ?l']"
    for tw' :: "('k, 'j, 'd) TimeWheel"
    using p that by (auto simp: cursor_ok_def elemAt_def)
  consider (dead) "task_times t = 0"
    | (wait) "task_times t \<noteq> 0" "task_circle t > 0"
    | (last) "task_times t = 1" "\<not> task_circle t > 0"
    | (again) "task_times t \<noteq> 0" "task_times t \<noteq> 1" "\<not> task_circle t > 0"
    by blast
  then show ?thesis
  proof cases
    case dead
    have "wheel_inv (?twr\<lparr>taskRecord := (taskRecord ?twr)(task_key t := None)\<rparr>)"
      using r by (rule inv_record_delete)
    then show ?thesis using p
      by (simp add: scanStep_dead[OF l_def a_def t_def dead] cr)
  next
    case wait
    have "wheel_inv (tw\<lparr>heap := (heap tw)[a := t\<lparr>task_circle := task_circle t - 1\<rparr>]\<rparr>)"
      using inv by (intro inv_heap_update) (simp_all add: t_def)
    moreover have "cursor_ok (tw\<lparr>heap := (heap tw)[a := t\<lparr>task_circle := task_circle t - 1\<rparr>]\<rparr>) p (elemAt l (Suc i))"
      by (auto simp: cursor_ok_def elemAt_def l_def)
    ultimately show ?thesis
      by (simp add: scanStep_wait[OF l_def a_def t_def wait])
  next
    case last
    let ?tw1 = "tw\<lparr>dispatched := dispatched tw @ [(a, task_job t, task_taskData t)],
                    slots := (slots tw)[p := Some ?l']\<rparr>"
    have 1: "wheel_inv ?tw1" using r by (simp add: wheel_inv_def)
    have "wheel_inv (?tw1\<lparr>heap := (heap ?tw1)[a := t\<lparr>task_times := 0\<rparr>]\<rparr>)"
      using 1 by (intro inv_heap_update) (simp_all add: t_def)
    from inv_record_delete[OF this, of "task_key t"]
    show ?thesis using p
      by (simp add: scanStep_last[OF l_def a_def t_def last] cr)
  next
    case again
    let ?tw1 = "tw\<lparr>dispatched := dispatched tw @ [(a, task_job t, task_taskData t)],
                    slots := (slots tw)[p := Some ?l']\<rparr>"
    define tw2 where "tw2 = tw\<lparr>dispatched := dispatched tw @ [(a, task_job t, task_taskData t)],
               slots := (slots tw)[p := Some (removeAt i l)],
               heap := (heap tw)[a := t\<lparr>task_times :=
                          (if 0 < task_times t then task_times t - 1 else task_times t)\<rparr>]\<rparr>"
    have 1: "wheel_inv ?tw1" using r by (simp add: wheel_inv_def)
    have "wheel_inv (?tw1\<lparr>heap := (heap ?tw1)[a := t\<lparr>task_times :=
                          (if 0 < task_times t then task_times t - 1 else task_times t)\<rparr>]\<rparr>)"
      using 1 by (intro inv_heap_update) (simp_all add: t_def)
    then have 2: "wheel_inv tw2" by (simp add: tw2_def)
    have s2: "slots tw2 = (slots tw)[p := Some ?l']" and h2: "length (heap tw2) = length (heap tw)"
      by (simp_all add: tw2_def)
    note step = scanStep_again[OF l_def a_def t_def again tw2_def]
    show ?thesis
    proof (cases "addTask tw2 a")
      case (Inl e)
      then show ?thesis using 2 s2 by (simp add: step)
    next
      case (Inr tw3)
      have 3: "wheel_inv tw3" using 2 a h2 Inr by (auto intro: addTask_inv)
      from addTask_slots[OF Inr, of p]
      have "length (slots tw3) = length (slots tw2)"
        "length (items (slots tw2 ! p)) \<le> length (items (slots tw3 ! p))" by simp_all
      moreover have "cursor_ok tw2 p (elemAt ?l' i)" using s2 by (rule cr)
      ultimately have "cursor_ok tw3 p (elemAt ?l' i)"
        by (auto simp: cursor_ok_def split: option.splits)
      then show ?thesis using 3 Inr s2 \<open>length (slots tw3) = length (slots tw2)\<close> by (simp add: step)
    qed
  qed
qed

lemma scanLoop_inv:
  "wheel_inv tw \<Longrightarrow> p < length (slots tw) \<Longrightarrow> cursor_ok tw p item \<Longrightarrow>
   wheel_inv (state_of (scanLoop fuel tw p item)) \<and>
   length (slots (state_of (scanLoop fuel tw p item))) = length (slots tw)"
proof (induction fuel tw p item rule: scanLoop.induct)
  case (1 fuel tw p)
  then show ?case by simp
next
  case (2 tw p i)
  then show ?case by simp
next
  case (3 fuel tw p i)
  from 3(2,3,4) have s: "case scanStep tw p i of
           Inl (e, tw') \<Rightarrow> wheel_inv tw' \<and> length (slots tw') = length (slots tw)
         | Inr (tw', item) \<Rightarrow> wheel_inv tw' \<and> length (slots tw') = length (slots tw) \<and>
             cursor_ok tw' p item"
    by (intro scanStep_inv) (simp_all add: cursor_ok_def)
  show ?case
  proof (cases "scanStep tw p i")
    case (Inl x)
    then show ?thesis using s by (cases x) simp
  next
    case (Inr y)
    obtain tw' item where y: "y = (tw', item)" by (cases y)
    with Inr s have "wheel_inv tw'" "length (slots tw') = length (slots tw)" "cursor_ok tw' p item"
      by simp_all
    with 3(1)[OF Inr y[symmetric]] 3(3) show ?thesis using Inr y by simp
  qed
qed

subsection \<open>Ticks and runs keep the invariant\<close>

lemma addTask_frame:
  assumes "addTask tw a = Inr tw'"
  shows "currentPos tw' = currentPos tw \<and> slotNum tw' = slotNum tw \<and>
         interval tw' = interval tw \<and> ticker tw' = ticker tw \<and> dispatched tw' = dispatched tw"
  using assms by (cases rule: addTask_cases) simp_all

lemma scanStep_frame:
  "case scanStep tw p i of Inl (e, tw') \<Rightarrow> frame_eq tw tw' | Inr (tw', item) \<Rightarrow> frame_eq tw tw'"
proof -
  define l where "l = items (slots tw ! p)"
  define a where "a = l ! i"
  define t where "t = heap tw ! a"
  consider (dead) "task_times t = 0"
    | (wait) "task_times t \<noteq> 0" "task_circle t > 0"
    | (last) "task_times t = 1" "\<not> task_circle t > 0"
    | (again) "task_times t \<noteq> 0" "task_times t \<noteq> 1" "\<not> task_circle t > 0"
    by blast
  then show ?thesis
  proof cases
    case dead
    show ?thesis by (simp add: scanStep_dead[OF l_def a_def t_def dead] frame_eq_def)
  next
    case wait
    show ?thesis by (simp add: scanStep_wait[OF l_def a_def t_def wait] frame_eq_def)
  next
    case last
    show ?thesis by (simp add: scanStep_last[OF l_def a_def t_def last] frame_eq_def)
  next
    case again
    define tw2 where "tw2 = tw\<lparr>dispatched := dispatched tw @ [(a, task_job t, task_taskData t)],
               slots := (slots tw)[p := Some (removeAt i l)],
               heap := (heap tw)[a := t\<lparr>task_times :=
                          (if 0 < task_times t then task_times t - 1 else task_times t)\<rparr>]\<rparr>"
    note step = scanStep_again[OF l_def a_def t_def again tw2_def]
    have 2: "frame_eq tw tw2" by (simp add: tw2_def frame_eq_def)
    show ?thesis
    proof (cases "addTask tw2 a")
      case (Inl e)
      then show ?thesis using 2 by (simp add: step)
    next
      case (Inr tw3)
      then show ?thesis using 2 addTask_frame[OF Inr] by (simp add: step frame_eq_def)
    qed
  qed
qed

lemma scanLoop_frame: "frame_eq tw (state_of (scanLoop fuel tw p item))"
proof (induction fuel tw p item rule: scanLoop.induct)
  case (1 fuel tw p)
  then show ?case by (simp add: frame_eq_def)
next
  case (2 tw p i)
  then show ?case by (simp add: frame_eq_def)
next
  case (3 fuel tw p i)
  show ?case
  proof (cases "scanStep tw p i")
    case (Inl x)
    then show ?thesis using scanStep_frame[of tw p i] by (cases x) simp
  next
    case (Inr y)
    obtain tw' item where y: "y = (tw', item)" by (cases y)
    with Inr scanStep_frame[of tw p i] have "frame_eq tw tw'" by simp
    with 3[OF Inr y[symmetric]] show ?thesis using Inr y by (simp add: frame_eq_def)
  qed
qed

lemma scanAddRunTask_inv:
  assumes "wheel_inv tw" "p < length (slots tw)"
  shows "wheel_inv (state_of (scanAddRunTask fuel tw p)) \<and>
         length (slots (state_of (scanAddRunTask fuel tw p))) = length (slots tw) \<and>
         frame_eq tw (state_of (scanAddRunTask fuel tw p))"
proof -
  from assms obtain l where l: "slots tw ! p = Some l" "\<forall>b\<in>set l. b < length (heap tw)"
    by (rule inv_slot)
  have "cursor_ok tw p (elemAt l 0)" using l by (auto simp: cursor_ok_def elemAt_def)
  from scanLoop_inv[OF assms this] scanLoop_frame[of tw fuel p "elemAt l 0"]
  show ?thesis using l by (simp add: scanAddRunTask_def)
qed

lemma tickHandler_inv:
  assumes "wheel_inv tw"
  shows "wheel_inv (state_of (tickHandler fuel tw))"
proof -
  let ?p = "nat (currentPos tw)"
  have p: "?p < length (slots tw)" and r: "\<not> (currentPos tw < 0 \<or> int (length (slots tw)) \<le> currentPos tw)"
    using assms by (auto simp: wheel_inv_def)
  note s = scanAddRunTask_inv[OF assms p, of fuel]
  show ?thesis
  proof (cases "scanAddRunTask fuel tw ?p")
    case (Done tw')
    with s have "wheel_inv tw'" "frame_eq tw tw'" by simp_all
    then have "wheel_inv (tw'\<lparr>currentPos := 0\<rparr>)"
      and "currentPos tw' \<noteq> slotNum tw' - 1 \<Longrightarrow> wheel_inv (tw'\<lparr>currentPos := currentPos tw' + 1\<rparr>)"
      by (auto simp: wheel_inv_def)
    then show ?thesis using r Done by (simp add: tickHandler_def)
  next
    case (Panicked e tw')
    then show ?thesis using s r by (simp add: tickHandler_def)
  next
    case (OutOfFuel tw')
    then show ?thesis using s r by (simp add: tickHandler_def)
  qed
qed


lemma exec_inv:
  assumes "wheel_inv tw"
  shows "wheel_inv (state_of (exec e tw))"
proof (cases e)
  case (EvAddTask i n k d j)
  obtain err s tw' where r: "AddTask tw i n k d j = (err, s, tw')" by (cases "AddTask tw i n k d j")
  from AddTask_inv[OF assms r] have 1: "wheel_inv tw'" "\<forall>a. s = Some a \<longrightarrow> a < length (heap tw')"
    by simp_all
  show ?thesis
  proof (cases s)
    case None
    then show ?thesis using 1 r EvAddTask by simp
  next
    case (Some a)
    then show ?thesis using 1 r EvAddTask addTask_inv[of tw' a]
      by (cases "addTask tw' a") simp_all
  qed
next
  case (EvRemoveTask k)
  then show ?thesis using RemoveTask_inv[OF assms] by simp
next
  case (EvUpdateTask k i d)
  then show ?thesis using UpdateTask_inv[OF assms] by simp
next
  case (EvTick fuel)
  then show ?thesis using tickHandler_inv[OF assms] by simp
qed

lemma run_inv: "wheel_inv tw \<Longrightarrow> wheel_inv (state_of (run es tw))"
proof (induction es arbitrary: tw)
  case Nil
  then show ?case by simp
next
  case (Cons e es)
  from exec_inv[OF Cons.prems, of e] show ?case
    by (cases "exec e tw") (simp_all add: Cons.IH)
qed

subsection \<open>A tombstoned task stays tombstoned and is not dispatched\<close>











lemma RemoveTask_found:
  assumes "wheel_inv tw" "taskRecord tw k = Some a"
  shows "RemoveTask tw k =
           (None, tw\<lparr>heap := (heap tw)[a := (heap tw ! a)\<lparr>task_times := 0\<rparr>],
                      taskRecord := (taskRecord tw)(k := None)\<rparr>)"
proof -
  from assms have a: "a < length (heap tw)" and ka: "task_key (heap tw ! a) = k"
    by (auto simp: wheel_inv_def)
  have "task_key (heap tw ! a) \<noteq> None" using a assms(1) by (auto simp: wheel_inv_def)
  then have k: "k \<noteq> None" using ka by simp
  show ?thesis using k ka assms(2) by (auto simp: RemoveTask_def Let_def)
qed


subsection \<open>The example wheels are wheels of the program\<close>

lemma replicate_ten: "replicate 10 x = [x, x, x, x, x, x, x, x, x, x]"
  by (simp add: numeral_eq_Suc)


lemma busy_wheel_inv: "wheel_inv busy_wheel"
  by (simp add: wheel_inv_def busy_wheel_def nth_Cons' split: if_splits)

lemma busy_wheel_reached:
  "run [EvAddTask 2000000000 1 (Some ''x'') ''one'' (Some ''print''),
        EvAddTask 12000000000 3 (Some ''b'') ''two'' (Some ''print''),
        EvAddTask 2000000000 5 (Some ''c'') ''three'' (Some ''print''),
        EvRemoveTask (Some ''x''), EvTick 1, EvTick 1] (Start fresh_wheel) = Done busy_wheel"
proof -
  have two: "Suc (Suc 0) = 2" by simp
  show ?thesis
    by (simp add: Start_def fresh_wheel_def busy_wheel_def AddTask_def addTask_def
        getPositionAndCircle_def Seconds_def Second_def quot_def rem_def RemoveTask_def
        tickHandler_def scanAddRunTask_def elemAt_def Let_def two)
qed

subsection \<open>Admission when the wheel ticks in whole seconds\<close>




subsection \<open>Admission on the example wheel\<close>





subsection \<open>The tick as a scan of the slot at the cursor\<close>

lemma tickHandler_eq:
  assumes "wheel_inv tw" "p = nat (currentPos tw)" "l = items (slots tw ! p)"
  shows "tickHandler fuel tw =
           (case scanLoop fuel tw p (elemAt l 0) of
              Done tw' \<Rightarrow> Done (tw'\<lparr>currentPos := (currentPos tw + 1) mod slotNum tw\<rparr>)
            | Panicked e tw' \<Rightarrow> Panicked e tw'
            | OutOfFuel tw' \<Rightarrow> OutOfFuel tw')"
proof -
  have c: "0 \<le> currentPos tw" "currentPos tw < slotNum tw" "length (slots tw) = nat (slotNum tw)"
    using assms(1) by (auto simp: wheel_inv_def)
  then have r: "\<not> (currentPos tw < 0 \<or> int (length (slots tw)) \<le> currentPos tw)" by simp
  have p: "p < length (slots tw)" using c by (simp add: assms(2))
  with assms(1) obtain l0 where l0: "slots tw ! p = Some l0" by (rule inv_slot)
  then have s: "scanAddRunTask fuel tw p = scanLoop fuel tw p (elemAt l 0)"
    by (simp add: scanAddRunTask_def assms(3))
  note f = scanLoop_frame[of tw fuel p "elemAt l 0"]
  show ?thesis
  proof (cases "scanLoop fuel tw p (elemAt l 0)")
    case (Done tw')
    with f have e: "currentPos tw' = currentPos tw" "slotNum tw' = slotNum tw"
      by (simp_all add: frame_eq_def)
    have "(if currentPos tw' = slotNum tw' - 1 then tw'\<lparr>currentPos := 0\<rparr>
           else tw'\<lparr>currentPos := currentPos tw' + 1\<rparr>) =
          tw'\<lparr>currentPos := (currentPos tw + 1) mod slotNum tw\<rparr>"
    proof (cases "currentPos tw = slotNum tw - 1")
      case True
      then show ?thesis using e by simp
    next
      case False
      then have "currentPos tw + 1 < slotNum tw" using c by simp
      then have "(currentPos tw + 1) mod slotNum tw = currentPos tw + 1" using c by simp
      then show ?thesis using False e by simp
    qed
    then show ?thesis using r s Done by (simp add: tickHandler_def assms(2)[symmetric])
  next
    case (Panicked e tw')
    then show ?thesis using r s by (simp add: tickHandler_def assms(2)[symmetric])
  next
    case (OutOfFuel tw')
    then show ?thesis using r s by (simp add: tickHandler_def assms(2)[symmetric])
  qed
qed

lemma busy_wheel_tick:
  "tickHandler 3 busy_wheel = Done (state_of (tickHandler 3 busy_wheel)) \<and>
   slots (state_of (tickHandler 3 busy_wheel)) =
     [Some [], Some [], Some [1], Some [], Some [2], Some [], Some [], Some [], Some [], Some []] \<and>
   dispatched (state_of (tickHandler 3 busy_wheel)) = [(2, Some ''print'', ''three'')]"
  by (simp add: tickHandler_def scanAddRunTask_def scanStep_def addTask_def
      getPositionAndCircle_def elemAt_def removeAt_def Let_def busy_wheel_def Seconds_def
      Second_def quot_def rem_def numeral_3_eq_3)

subsection \<open>A completed scan leaves no tombstoned task in the slot\<close>









subsection \<open>Re-admission of a due task\<close>






subsection \<open>The scan of a slot of calm tasks ends\<close>




subsection \<open>The scan of a slot need not end\<close>


lemma spinning_step:
  assumes "spinning tw"
  shows "\<exists>tw'. scanStep tw 0 0 = Inr (tw', Some 0) \<and> spinning tw'"
proof -
  from assms consider "slots tw ! 0 = Some [0, 1]" | "slots tw ! 0 = Some [1, 0]"
    by (auto simp: spinning_def)
  then show ?thesis
  proof cases
    case 1
    with assms show ?thesis
      by (simp add: spinning_def spin_wheel_def scanStep_def addTask_def
          getPositionAndCircle_def Seconds_def Second_def quot_def rem_def Let_def
          removeAt_def elemAt_def)
  next
    case 2
    with assms show ?thesis
      by (simp add: spinning_def spin_wheel_def scanStep_def addTask_def
          getPositionAndCircle_def Seconds_def Second_def quot_def rem_def Let_def
          removeAt_def elemAt_def)
  qed
qed

lemma spinning_loop: "spinning tw \<Longrightarrow> \<exists>tw'. scanLoop fuel tw 0 (Some 0) = OutOfFuel tw'"
proof (induction fuel arbitrary: tw)
  case 0
  then show ?case by simp
next
  case (Suc fuel)
  from spinning_step[OF Suc.prems] obtain tw1 where "scanStep tw 0 0 = Inr (tw1, Some 0)"
    and "spinning tw1" by blast
  with Suc.IH[of tw1] show ?case by simp
qed

lemma tick_can_spin: "\<exists>tw'. tickHandler fuel spin_wheel = OutOfFuel tw'"
proof -
  have "spinning spin_wheel" by (simp add: spinning_def spin_wheel_def)
  from spinning_loop[OF this, of fuel] obtain tw' where "scanLoop fuel spin_wheel 0 (Some 0) = OutOfFuel tw'"
    by blast
  then show ?thesis
    by (simp add: tickHandler_def scanAddRunTask_def elemAt_def spin_wheel_def)
qed

subsection \<open>No pointer is in the slots twice\<close>

text \<open>
  A task is pushed onto a list when it is new or when the scan has just removed it, so
  in every wheel reached from \<open>New\<close> the lists of the slots are distinct and disjoint.
\<close>

lemma concat_items_nth:
  assumes "p < length xs"
  shows "concat (map items xs) =
           concat (map items (take p xs)) @ items (xs ! p) @ concat (map items (drop (Suc p) xs))"
proof -
  have "xs = take p xs @ xs ! p # drop (Suc p) xs" using assms by (rule id_take_nth_drop)
  then have "concat (map items xs) = concat (map items (take p xs @ xs ! p # drop (Suc p) xs))"
    by simp
  then show ?thesis by simp
qed

lemma concat_items_update:
  assumes "p < length xs"
  shows "concat (map items (xs[p := y])) =
           concat (map items (take p xs)) @ items y @ concat (map items (drop (Suc p) xs))"
  using assms by (simp add: upd_conv_take_nth_drop)

lemma distinct_push:
  assumes "distinct (all_items tw)" "p < length (slots tw)" "slots tw ! p = Some l"
    and "a \<notin> set (all_items tw)" "slots tw' = (slots tw)[p := Some (l @ [a])]"
  shows "distinct (all_items tw')"
  using assms(1,4) concat_items_nth[OF assms(2)] concat_items_update[OF assms(2), of "Some (l @ [a])"]
  by (auto simp: all_items_def assms(3,5))

lemma distinct_remove:
  assumes "distinct (all_items tw)" "p < length (slots tw)" "slots tw ! p = Some l" "i < length l"
    and "slots tw' = (slots tw)[p := Some (removeAt i l)]"
  shows "distinct (all_items tw') \<and> l ! i \<notin> set (all_items tw')"
proof -
  have l: "l = take i l @ l ! i # drop (Suc i) l" using assms(4) by (rule id_take_nth_drop)
  let ?A = "concat (map items (take p (slots tw)))"
  let ?B = "concat (map items (drop (Suc p) (slots tw)))"
  have "distinct (?A @ (take i l @ l ! i # drop (Suc i) l) @ ?B)"
    using assms(1) concat_items_nth[OF assms(2)] l by (simp add: all_items_def assms(3))
  then have "distinct (?A @ removeAt i l @ ?B) \<and> l ! i \<notin> set (?A @ removeAt i l @ ?B)"
    by (auto simp: removeAt_def)
  then show ?thesis
    using concat_items_update[OF assms(2), of "Some (removeAt i l)"]
    by (simp add: all_items_def assms(5))
qed

lemma all_items_bound:
  assumes "wheel_inv tw" "a \<in> set (all_items tw)"
  shows "a < length (heap tw)"
  using assms by (auto simp: all_items_def wheel_inv_def)

lemma slot_distinct:
  assumes "distinct (all_items tw)" "p < length (slots tw)"
  shows "distinct (items (slots tw ! p))"
  using assms(1) concat_items_nth[OF assms(2)] by (simp add: all_items_def)

lemma addTask_distinct:
  assumes "distinct (all_items tw)" "a \<notin> set (all_items tw)" "addTask tw a = Inr tw'"
  shows "distinct (all_items tw')"
  using assms(3)
proof (cases rule: addTask_cases)
  case skip
  then show ?thesis using assms(1) by simp
next
  case (push pos circle l)
  have p: "nat pos < length (slots tw)" using push(3,4) by simp
  show ?thesis using assms(1) p push(5) assms(2)
    by (rule distinct_push) (simp add: push(6))
qed

lemma scanStep_distinct:
  assumes "wheel_inv tw" "distinct (all_items tw)" "p < length (slots tw)"
    and "i < length (items (slots tw ! p))"
  shows "case scanStep tw p i of
           Inl (e, tw') \<Rightarrow> distinct (all_items tw')
         | Inr (tw', item) \<Rightarrow> distinct (all_items tw')"
proof -
  define l where "l = items (slots tw ! p)"
  define a where "a = l ! i"
  define t where "t = heap tw ! a"
  from assms(1,3) obtain l0 where l0: "slots tw ! p = Some l0" by (rule inv_slot)
  then have sl: "slots tw ! p = Some l" by (simp add: l_def)
  have il: "i < length l" using assms(4) by (simp add: l_def)
  have r: "distinct (all_items tw1) \<and> a \<notin> set (all_items tw1)"
    if "slots tw1 = (slots tw)[p := Some (removeAt i l)]" for tw1 :: "('k, 'j, 'd) TimeWheel"
    unfolding a_def using assms(2,3) sl il that by (rule distinct_remove)
  consider (dead) "task_times t = 0"
    | (wait) "task_times t \<noteq> 0" "task_circle t > 0"
    | (last) "task_times t = 1" "\<not> task_circle t > 0"
    | (again) "task_times t \<noteq> 0" "task_times t \<noteq> 1" "\<not> task_circle t > 0"
    by blast
  then show ?thesis
  proof cases
    case dead
    let ?tw1 = "tw\<lparr>slots := (slots tw)[p := Some (removeAt i l)],
                    taskRecord := (taskRecord tw)(task_key t := None)\<rparr>"
    have "distinct (all_items ?tw1)" using r[of ?tw1] by simp
    then show ?thesis unfolding scanStep_dead[OF l_def a_def t_def dead] by simp
  next
    case wait
    show ?thesis unfolding scanStep_wait[OF l_def a_def t_def wait] using assms(2)
      by (simp add: all_items_def)
  next
    case last
    let ?tw1 = "tw\<lparr>dispatched := dispatched tw @ [(a, task_job t, task_taskData t)],
                     slots := (slots tw)[p := Some (removeAt i l)],
                     heap := (heap tw)[a := t\<lparr>task_times := 0\<rparr>],
                     taskRecord := (taskRecord tw)(task_key t := None)\<rparr>"
    have "distinct (all_items ?tw1)" using r[of ?tw1] by simp
    then show ?thesis unfolding scanStep_last[OF l_def a_def t_def last] by simp
  next
    case again
    define tw2 where "tw2 = tw\<lparr>dispatched := dispatched tw @ [(a, task_job t, task_taskData t)],
               slots := (slots tw)[p := Some (removeAt i l)],
               heap := (heap tw)[a := t\<lparr>task_times :=
                          (if 0 < task_times t then task_times t - 1 else task_times t)\<rparr>]\<rparr>"
    note step = scanStep_again[OF l_def a_def t_def again tw2_def]
    have 2: "distinct (all_items tw2) \<and> a \<notin> set (all_items tw2)"
      by (rule r) (simp add: tw2_def)
    show ?thesis
    proof (cases "addTask tw2 a")
      case (Inl e)
      then show ?thesis using 2 by (simp add: step)
    next
      case (Inr tw3)
      from 2 have "distinct (all_items tw2)" "a \<notin> set (all_items tw2)" by simp_all
      then have "distinct (all_items tw3)" using Inr by (rule addTask_distinct)
      then show ?thesis using Inr by (simp add: step)
    qed
  qed
qed

lemma scanLoop_distinct:
  "wheel_inv tw \<Longrightarrow> distinct (all_items tw) \<Longrightarrow> p < length (slots tw) \<Longrightarrow> cursor_ok tw p item \<Longrightarrow>
   distinct (all_items (state_of (scanLoop fuel tw p item)))"
proof (induction fuel tw p item rule: scanLoop.induct)
  case (1 fuel tw p)
  then show ?case by simp
next
  case (2 tw p i)
  then show ?case by simp
next
  case (3 fuel tw p i)
  have ci: "i < length (items (slots tw ! p))" using 3(5) by (simp add: cursor_ok_def)
  note s = scanStep_inv[OF 3(2,4) ci] and d = scanStep_distinct[OF 3(2,3,4) ci]
  show ?case
  proof (cases "scanStep tw p i")
    case (Inl x)
    then show ?thesis using d by (cases x) simp
  next
    case (Inr y)
    obtain tw' item where y: "y = (tw', item)" by (cases y)
    with Inr s d have "wheel_inv tw'" "distinct (all_items tw')" "p < length (slots tw')"
      "cursor_ok tw' p item" using 3(4) by simp_all
    with 3(1)[OF Inr y[symmetric]] show ?thesis using Inr y by simp
  qed
qed

lemma tickHandler_distinct:
  assumes "wheel_inv tw" "distinct (all_items tw)"
  shows "distinct (all_items (state_of (tickHandler fuel tw)))"
proof -
  define p where "p = nat (currentPos tw)"
  define l where "l = items (slots tw ! p)"
  have p: "p < length (slots tw)" using assms(1) by (auto simp: wheel_inv_def p_def)
  have c: "cursor_ok tw p (elemAt l 0)" by (auto simp: cursor_ok_def elemAt_def l_def)
  note d = scanLoop_distinct[OF assms p c, of fuel]
  have u: "all_items (tw'\<lparr>currentPos := n\<rparr>) = all_items tw'" for tw' :: "('k, 'j, 'd) TimeWheel" and n
    by (simp add: all_items_def)
  show ?thesis
    using d unfolding tickHandler_eq[OF assms(1) p_def l_def]
    by (cases "scanLoop fuel tw p (elemAt l 0)") (simp_all add: u)
qed

lemma exec_distinct:
  assumes "wheel_inv tw" "distinct (all_items tw)"
  shows "distinct (all_items (state_of (exec e tw)))"
proof (cases e)
  case (EvAddTask i n k d j)
  obtain err s tw' where r: "AddTask tw i n k d j = (err, s, tw')" by (cases "AddTask tw i n k d j")
  have sl: "slots tw' = slots tw" using r by (auto simp: AddTask_def split: if_splits)
  then have 1: "distinct (all_items tw')" "all_items tw' = all_items tw"
    using assms(2) by (simp_all add: all_items_def)
  show ?thesis
  proof (cases s)
    case None
    then show ?thesis using 1 r EvAddTask by simp
  next
    case (Some a)
    then have "a = length (heap tw)" using r by (auto simp: AddTask_def split: if_splits)
    then have "a \<notin> set (all_items tw')" using all_items_bound[OF assms(1), of a] 1(2) by auto
    then show ?thesis using 1 r EvAddTask Some addTask_distinct[of tw' a]
      by (cases "addTask tw' a") simp_all
  qed
next
  case (EvRemoveTask k)
  have "slots (snd (RemoveTask tw k)) = slots tw"
    by (simp add: RemoveTask_def Let_def split: option.splits)
  then show ?thesis using assms(2) EvRemoveTask by (simp add: all_items_def)
next
  case (EvUpdateTask k i d)
  have "slots (snd (UpdateTask tw k i d)) = slots tw"
    by (simp add: UpdateTask_def Let_def split: option.splits)
  then show ?thesis using assms(2) EvUpdateTask by (simp add: all_items_def)
next
  case (EvTick fuel)
  then show ?thesis using tickHandler_distinct[OF assms] by simp
qed

lemma run_distinct:
  "wheel_inv tw \<Longrightarrow> distinct (all_items tw) \<Longrightarrow> distinct (all_items (state_of (run es tw)))"
proof (induction es arbitrary: tw)
  case Nil
  then show ?case by simp
next
  case (Cons e es)
  note i = exec_inv[OF Cons.prems(1), of e] and d = exec_distinct[OF Cons.prems, of e]
  show ?case
  proof (cases "exec e tw")
    case (Done tw')
    with i d have "wheel_inv tw'" "distinct (all_items tw')" by simp_all
    then show ?thesis using Done by (simp add: Cons.IH)
  next
    case (Panicked p tw')
    then show ?thesis using d by simp
  next
    case (OutOfFuel tw')
    then show ?thesis using d by simp
  qed
qed

lemma reachable_slots_distinct:
  assumes "New i n = Inr (Some tw0)" "tw = state_of (run es (Start tw0))"
    and "p = nat (currentPos tw)"
  shows "wheel_inv tw \<and> distinct (items (slots tw ! p))"
proof -
  have w0: "wheel_inv tw0" using assms(1) by (rule inv_New)
  then have w: "wheel_inv (Start tw0)" by (simp add: Start_def wheel_inv_def)
  have "0 < i \<and> 0 < n" using assms(1) by (cases "0 < i \<and> 0 < n") (auto simp: New_fail not_less)
  then have "all_items tw0 = []" using assms(1) by (auto simp: New_ok all_items_def)
  moreover have "all_items (Start tw0) = all_items tw0" by (simp add: Start_def all_items_def)
  ultimately have d: "distinct (all_items (Start tw0))" by simp
  have 1: "wheel_inv tw" unfolding assms(2) using w by (rule run_inv)
  have 2: "distinct (all_items tw)" unfolding assms(2) using w d by (rule run_distinct)
  have "p < length (slots tw)" using 1 by (auto simp: wheel_inv_def assms(3))
  with 2 have "distinct (items (slots tw ! p))" by (rule slot_distinct)
  with 1 show ?thesis by simp
qed

subsection \<open>More example wheels satisfy the invariant\<close>




section \<open>The claims of the specification\<close>




text \<open>
  Claim C2 does not hold of the program. \<open>New\<close> accepts every positive interval, and an
  interval below one second has 0 whole seconds: the wheel \<open>New\<close> returns for half a
  second panics with a division by zero in \<open>getPositionAndCircle\<close> when the control loop
  admits a task that \<open>AddTask\<close> has accepted. The admission can panic on a wheel of whole
  seconds too: \<open>UpdateTask\<close> stores any interval without an error, and when the task
  \<^verbatim>\<open>"c"\<close> of the example wheel has got an interval of minus five seconds, the tick that
  dispatches it computes the slot \<open>-3\<close> for it and panics on the index.
\<close>

theorem admission_panics:
  "New 500000000 10 = Inr (Some (fresh_wheel\<lparr>interval := 500000000\<rparr>)) \<and>
   fst (AddTask (fresh_wheel\<lparr>interval := 500000000\<rparr>) 1000000000 1 (Some ''a'') ''data''
          (Some ''print'')) = None \<and>
   panic_of (exec (EvAddTask 1000000000 1 (Some ''a'') ''data'' (Some ''print''))
               (fresh_wheel\<lparr>interval := 500000000\<rparr>)) = Some DivideByZero \<and>
   fst (UpdateTask busy_wheel (Some ''c'') (- 5000000000) ''three'') = None \<and>
   panic_of (run [EvUpdateTask (Some ''c'') (- 5000000000) ''three'', EvTick 3] busy_wheel)
     = Some IndexOutOfRange"
  by (simp add: New_ok replicate_ten fresh_wheel_def busy_wheel_def AddTask_def UpdateTask_def
      addTask_def getPositionAndCircle_def Seconds_def Second_def quot_def rem_def Let_def
      tickHandler_def scanAddRunTask_def scanStep_def elemAt_def removeAt_def numeral_3_eq_3)







text \<open>
  Claim C9. \<open>New\<close> returns \<^verbatim>\<open>nil\<close> exactly when the interval or the slot count is not
  positive. For positive arguments it does not panic and returns a wheel with
  \<open>slotNum\<close> empty, allocated lists (the loop of \<open>init\<close> has replaced every \<^verbatim>\<open>nil\<close>), an
  empty task record, the cursor at slot 0 and no ticker: nothing has been started.
\<close>

theorem New_spec:
  "(New i n = Inr None \<longleftrightarrow> i \<le> 0 \<or> n \<le> 0) \<and>
   New i n =
     (if i \<le> 0 \<or> n \<le> 0 then Inr None
      else Inr (Some \<lparr>interval = i, ticker = False, slots = replicate (nat n) (Some []),
                       currentPos = 0, slotNum = n, taskRecord = Map.empty, heap = [],
                       dispatched = []\<rparr>))"
proof (cases "i \<le> 0 \<or> n \<le> 0")
  case True
  then show ?thesis by (simp add: New_fail)
next
  case False
  then have "0 < i" "0 < n" by simp_all
  then show ?thesis by (simp add: New_ok)
qed

text \<open>
  Claim C10. With a \<^verbatim>\<open>nil\<close> key \<open>UpdateTask\<close> returns the illegal-key error and
  \<open>RemoveTask\<close> returns success; both leave the state as it is, whatever the task record
  holds.
\<close>

theorem UpdateTask_nil_key:
  "UpdateTask tw None i d = (Some IllegalKey, tw) \<and> RemoveTask tw None = (None, tw)"
  by (simp add: UpdateTask_def RemoveTask_def)

text \<open>
  Claim C6. \<open>RemoveTask\<close> with a \<^verbatim>\<open>nil\<close> key succeeds and changes nothing; with a key that
  the task record does not hold it returns the not-found error and changes nothing;
  with a key recorded for the task at \<open>a\<close> it succeeds, sets that task's \<open>task_times\<close> to
  0 and deletes the key from the record, and no slot changes: the pointer stays in
  its list.
\<close>

theorem RemoveTask_spec:
  "RemoveTask tw None = (None, tw) \<and>
   (k \<noteq> None \<and> taskRecord tw k = None \<longrightarrow> RemoveTask tw k = (Some TaskNotExists, tw)) \<and>
   (wheel_inv tw \<and> taskRecord tw k = Some a \<longrightarrow>
      RemoveTask tw k =
        (None, tw\<lparr>heap := (heap tw)[a := (heap tw ! a)\<lparr>task_times := 0\<rparr>],
                   taskRecord := (taskRecord tw)(k := None)\<rparr>) \<and>
      task_times (heap (snd (RemoveTask tw k)) ! a) = 0 \<and>
      taskRecord (snd (RemoveTask tw k)) k = None \<and>
      slots (snd (RemoveTask tw k)) = slots tw)"
proof (intro conjI impI)
  show "RemoveTask tw None = (None, tw)" by (simp add: RemoveTask_def)
next
  assume "k \<noteq> None \<and> taskRecord tw k = None"
  then show "RemoveTask tw k = (Some TaskNotExists, tw)" by (auto simp: RemoveTask_def)
next
  assume h: "wheel_inv tw \<and> taskRecord tw k = Some a"
  then have f: "RemoveTask tw k =
        (None, tw\<lparr>heap := (heap tw)[a := (heap tw ! a)\<lparr>task_times := 0\<rparr>],
                   taskRecord := (taskRecord tw)(k := None)\<rparr>)"
    by (intro RemoveTask_found) simp_all
  from h have a: "a < length (heap tw)" by (auto simp: wheel_inv_def)
  show "RemoveTask tw k =
        (None, tw\<lparr>heap := (heap tw)[a := (heap tw ! a)\<lparr>task_times := 0\<rparr>],
                   taskRecord := (taskRecord tw)(k := None)\<rparr>)" by (rule f)
  show "task_times (heap (snd (RemoveTask tw k)) ! a) = 0" using a by (simp add: f)
  show "taskRecord (snd (RemoveTask tw k)) k = None" by (simp add: f)
  show "slots (snd (RemoveTask tw k)) = slots tw" by (simp add: f)
qed

theorem RemoveTask_spec_witness:
  "RemoveTask busy_wheel None = (None, busy_wheel) \<and>
   RemoveTask busy_wheel (Some ''zz'') = (Some TaskNotExists, busy_wheel) \<and>
   fst (RemoveTask busy_wheel (Some ''b'')) = None \<and>
   task_times (heap (snd (RemoveTask busy_wheel (Some ''b''))) ! 1) = 0 \<and>
   taskRecord (snd (RemoveTask busy_wheel (Some ''b''))) (Some ''b'') = None \<and>
   slots (snd (RemoveTask busy_wheel (Some ''b''))) ! 2 = Some [0, 1, 2]"
proof -
  have 1: "Some ''zz'' \<noteq> None \<and> taskRecord busy_wheel (Some ''zz'') = None"
    by (simp add: busy_wheel_def)
  have 2: "wheel_inv busy_wheel \<and> taskRecord busy_wheel (Some ''b'') = Some 1"
    using busy_wheel_inv by (simp add: busy_wheel_def)
  have 3: "slots busy_wheel ! 2 = Some [0, 1, 2]" by (simp add: busy_wheel_def)
  from RemoveTask_spec[where tw = busy_wheel and k = "Some ''zz''"] 1
  have 4: "RemoveTask busy_wheel None = (None, busy_wheel)"
    "RemoveTask busy_wheel (Some ''zz'') = (Some TaskNotExists, busy_wheel)"
    by blast+
  from RemoveTask_spec[where tw = busy_wheel and k = "Some ''b''" and a = 1] 2
  have 5: "RemoveTask busy_wheel (Some ''b'') =
        (None, busy_wheel\<lparr>heap := (heap busy_wheel)[1 := (heap busy_wheel ! 1)\<lparr>task_times := 0\<rparr>],
                   taskRecord := (taskRecord busy_wheel)(Some ''b'' := None)\<rparr>)"
    "task_times (heap (snd (RemoveTask busy_wheel (Some ''b''))) ! 1) = 0"
    "taskRecord (snd (RemoveTask busy_wheel (Some ''b''))) (Some ''b'') = None"
    "slots (snd (RemoveTask busy_wheel (Some ''b''))) = slots busy_wheel"
    by blast+
  from 5(1) have 6: "fst (RemoveTask busy_wheel (Some ''b'')) = None" by simp
  show ?thesis using 3 4 5(2,3,4) 6 by simp
qed

text \<open>
  Claim C7. \<open>AddTask\<close> returns the illegal-parameters error exactly when the interval is
  not positive, the key or the callback is \<^verbatim>\<open>nil\<close>, or \<open>times\<close> is 0 or below \<open>-1\<close>; with
  legal parameters and a key that the task record holds it returns the duplicate-key
  error; it returns no error exactly when the parameters are legal and the key is new.
  Whenever it returns an error nothing is sent to the control loop and the state,
  the recorded task included, is unchanged.
\<close>

theorem AddTask_spec:
  "(fst (AddTask tw i n k d j) = Some IllegalTaskParams \<longleftrightarrow>
      i \<le> 0 \<or> k = None \<or> j = None \<or> n = 0 \<or> n < - 1) \<and>
   (0 < i \<and> k \<noteq> None \<and> j \<noteq> None \<and> (n = - 1 \<or> 1 \<le> n) \<and> taskRecord tw k \<noteq> None \<longrightarrow>
      fst (AddTask tw i n k d j) = Some DuplicateTaskKey) \<and>
   (fst (AddTask tw i n k d j) = None \<longleftrightarrow>
      0 < i \<and> k \<noteq> None \<and> j \<noteq> None \<and> (n = - 1 \<or> 1 \<le> n) \<and> taskRecord tw k = None) \<and>
   (fst (AddTask tw i n k d j) \<noteq> None \<longrightarrow>
      snd (AddTask tw i n k d j) = (None, tw) \<and> exec (EvAddTask i n k d j) tw = Done tw)"
  by (auto simp: AddTask_def)

theorem AddTask_spec_witness:
  "fst (AddTask busy_wheel 0 1 (Some ''q'') ''data'' (Some ''print'')) = Some IllegalTaskParams \<and>
   fst (AddTask busy_wheel 1000000000 0 (Some ''q'') ''data'' (Some ''print'')) = Some IllegalTaskParams \<and>
   fst (AddTask busy_wheel 1000000000 1 (Some ''b'') ''data'' (Some ''print'')) = Some DuplicateTaskKey \<and>
   exec (EvAddTask 1000000000 1 (Some ''b'') ''data'' (Some ''print'')) busy_wheel = Done busy_wheel \<and>
   fst (AddTask busy_wheel 1000000000 1 (Some ''q'') ''data'' (Some ''print'')) = None"
proof -
  have 1: "taskRecord busy_wheel (Some ''b'') \<noteq> None" "taskRecord busy_wheel (Some ''q'') = None"
    by (simp_all add: busy_wheel_def)
  show ?thesis
    using AddTask_spec[of busy_wheel 0 1 "Some ''q''" "''data''" "Some ''print''"]
      AddTask_spec[of busy_wheel 1000000000 0 "Some ''q''" "''data''" "Some ''print''"]
      AddTask_spec[of busy_wheel 1000000000 1 "Some ''b''" "''data''" "Some ''print''"]
      AddTask_spec[of busy_wheel 1000000000 1 "Some ''q''" "''data''" "Some ''print''"] 1
    by simp
qed

text \<open>
  Claim C8, amended. For a key that is not \<^verbatim>\<open>nil\<close> and that the task record does not
  hold, \<open>UpdateTask\<close> returns the not-found error and changes nothing. For a key recorded
  for the task at \<open>a\<close> it succeeds and writes the interval and the payload of that task:
  every other field of the task, every other task and every other field of the wheel
  (slots, cursor, task record, log) stay as they were.
\<close>

theorem UpdateTask_spec:
  "(k \<noteq> None \<and> taskRecord tw k = None \<longrightarrow> UpdateTask tw k i d = (Some TaskNotExists, tw)) \<and>
   (wheel_inv tw \<and> taskRecord tw k = Some a \<longrightarrow>
      fst (UpdateTask tw k i d) = None \<and>
      (snd (UpdateTask tw k i d))\<lparr>heap := heap tw\<rparr> = tw \<and>
      length (heap (snd (UpdateTask tw k i d))) = length (heap tw) \<and>
      heap (snd (UpdateTask tw k i d)) ! a =
        (heap tw ! a)\<lparr>task_interval := i, task_taskData := d\<rparr> \<and>
      (\<forall>b. b \<noteq> a \<longrightarrow> heap (snd (UpdateTask tw k i d)) ! b = heap tw ! b))"
proof (intro conjI impI)
  assume "k \<noteq> None \<and> taskRecord tw k = None"
  then show "UpdateTask tw k i d = (Some TaskNotExists, tw)" by (auto simp: UpdateTask_def)
next
  assume h: "wheel_inv tw \<and> taskRecord tw k = Some a"
  then have a: "a < length (heap tw)" and ka: "task_key (heap tw ! a) = k"
    by (auto simp: wheel_inv_def)
  have "task_key (heap tw ! a) \<noteq> None" using a h by (auto simp: wheel_inv_def)
  then have k: "k \<noteq> None" using ka by simp
  have f: "UpdateTask tw k i d =
     (None, tw\<lparr>heap := (heap tw)[a := (heap tw ! a)\<lparr>task_taskData := d, task_interval := i\<rparr>]\<rparr>)"
    using k h by (auto simp: UpdateTask_def Let_def)
  show "fst (UpdateTask tw k i d) = None" by (simp add: f)
  show "(snd (UpdateTask tw k i d))\<lparr>heap := heap tw\<rparr> = tw" by (simp add: f)
  show "length (heap (snd (UpdateTask tw k i d))) = length (heap tw)" by (simp add: f)
  show "heap (snd (UpdateTask tw k i d)) ! a = (heap tw ! a)\<lparr>task_interval := i, task_taskData := d\<rparr>"
    using a by (simp add: f)
  show "\<forall>b. b \<noteq> a \<longrightarrow> heap (snd (UpdateTask tw k i d)) ! b = heap tw ! b" by (simp add: f)
qed

theorem UpdateTask_spec_witness:
  "UpdateTask busy_wheel (Some ''zz'') 3000000000 ''new'' = (Some TaskNotExists, busy_wheel) \<and>
   fst (UpdateTask busy_wheel (Some ''b'') 3000000000 ''new'') = None \<and>
   slots (snd (UpdateTask busy_wheel (Some ''b'') 3000000000 ''new'')) = slots busy_wheel \<and>
   heap (snd (UpdateTask busy_wheel (Some ''b'') 3000000000 ''new'')) ! 1 =
     \<lparr>task_interval = 3000000000, task_times = 3, task_circle = 1,
      task_key = Some ''b'', task_job = Some ''print'', task_taskData = ''new''\<rparr> \<and>
   heap (snd (UpdateTask busy_wheel (Some ''b'') 3000000000 ''new'')) ! 2 = heap busy_wheel ! 2"
proof -
  let ?tw' = "snd (UpdateTask busy_wheel (Some ''b'') 3000000000 ''new'')"
  have 1: "Some ''zz'' \<noteq> None \<and> taskRecord busy_wheel (Some ''zz'') = None"
    by (simp add: busy_wheel_def)
  have 2: "wheel_inv busy_wheel \<and> taskRecord busy_wheel (Some ''b'') = Some 1"
    using busy_wheel_inv by (simp add: busy_wheel_def)
  have 3: "heap busy_wheel ! 1 = \<lparr>task_interval = 12000000000, task_times = 3, task_circle = 1,
      task_key = Some ''b'', task_job = Some ''print'', task_taskData = ''two''\<rparr>"
    by (simp add: busy_wheel_def)
  from UpdateTask_spec[where tw = busy_wheel and k = "Some ''b''" and a = 1 and i = 3000000000
      and d = "''new''"] 2
  have 5: "fst (UpdateTask busy_wheel (Some ''b'') 3000000000 ''new'') = None"
    "?tw'\<lparr>heap := heap busy_wheel\<rparr> = busy_wheel"
    "heap ?tw' ! 1 = (heap busy_wheel ! 1)\<lparr>task_interval := 3000000000, task_taskData := ''new''\<rparr>"
    "\<forall>b. b \<noteq> 1 \<longrightarrow> heap ?tw' ! b = heap busy_wheel ! b"
    by blast+
  from 5(2) have "slots (?tw'\<lparr>heap := heap busy_wheel\<rparr>) = slots busy_wheel" by simp
  then have 6: "slots ?tw' = slots busy_wheel" by simp
  from 5(4) have 7: "heap ?tw' ! 2 = heap busy_wheel ! 2" by simp
  from UpdateTask_spec[where tw = busy_wheel and k = "Some ''zz''" and i = 3000000000
      and d = "''new''"] 1
  have 8: "UpdateTask busy_wheel (Some ''zz'') 3000000000 ''new'' = (Some TaskNotExists, busy_wheel)"
    by blast
  show ?thesis using 3 5(1,3) 6 7 8 by simp
qed

text \<open>
  As the specification words it, a key absent from the task record gets the not-found
  error. The \<^verbatim>\<open>nil\<close> key is absent from the record of the example wheel, and \<open>UpdateTask\<close>
  answers it with the illegal-key error.
\<close>

theorem UpdateTask_counterexample:
  "taskRecord busy_wheel None = None \<and>
   fst (UpdateTask busy_wheel None 1000000000 ''new'') \<noteq> Some TaskNotExists"
  by (simp add: busy_wheel_def UpdateTask_def)

end
